theory Spec2Isabelle
  imports Main "HOL-Library.Sublist"
begin

section \<open>Text, characters and the library functions the scripts call\<close>

text \<open>
  The two scripts work on Python \<open>str\<close> values. A text is modelled as a \<open>string\<close>, every
  \<open>char\<close> being one code point below 256 (Latin-1); the character classes below are the
  classes of Python's \<open>re\<close> module and of \<open>str.splitlines\<close> on that range. Texts with
  code points from 256 on are outside the model.
\<close>

abbreviation LF :: char where "LF \<equiv> CHR 0x0A"
abbreviation CR :: char where "CR \<equiv> CHR 0x0D"

text \<open>The class \<open>\s\<close> of a \<open>str\<close> pattern.\<close>

definition isspace :: "char \<Rightarrow> bool" where
  "isspace c = (of_char c \<in> set [0x09, 0x0A, 0x0B, 0x0C, 0x0D, 0x1C, 0x1D, 0x1E, 0x1F, 0x20, 0x85, 0xA0 :: nat])"

text \<open>The class \<open>\w\<close> of a \<open>str\<close> pattern (alphanumeric or underscore), which decides \<open>\b\<close>.\<close>

definition is_word :: "char \<Rightarrow> bool" where
  "is_word c = (let n = (of_char c :: nat) in
     (0x30 \<le> n \<and> n \<le> 0x39) \<or> (0x41 \<le> n \<and> n \<le> 0x5A) \<or> n = 0x5F \<or> (0x61 \<le> n \<and> n \<le> 0x7A)
     \<or> n \<in> set [0xAA, 0xB2, 0xB3, 0xB5, 0xB9, 0xBA, 0xBC, 0xBD, 0xBE]
     \<or> (0xC0 \<le> n \<and> n \<le> 0xD6) \<or> (0xD8 \<le> n \<and> n \<le> 0xF6) \<or> 0xF8 \<le> n)"

text \<open>The characters at which \<open>str.splitlines\<close> ends a line.\<close>

definition is_linebreak :: "char \<Rightarrow> bool" where
  "is_linebreak c = (of_char c \<in> set [0x0A, 0x0B, 0x0C, 0x0D, 0x1C, 0x1D, 0x1E, 0x85 :: nat])"

text \<open>\<open>str.lower\<close> on one character; it also is the case folding of \<open>re.I\<close> for the
  ASCII letters and signs of the patterns.\<close>

definition py_lower :: "char \<Rightarrow> char" where
  "py_lower c = (let n = (of_char c :: nat) in
     if (0x41 \<le> n \<and> n \<le> 0x5A) \<or> (0xC0 \<le> n \<and> n \<le> 0xDE \<and> n \<noteq> 0xD7)
     then char_of (n + 0x20) else c)"

text \<open>A literal of a pattern compiled with \<open>re.I\<close>, written in lower case, at the start
  of \<open>s\<close>.\<close>

fun ci_prefix :: "string \<Rightarrow> string \<Rightarrow> bool" where
  "ci_prefix [] s = True"
| "ci_prefix (p # ps) [] = False"
| "ci_prefix (p # ps) (c # cs) = (if py_lower c = p then ci_prefix ps cs else False)"

text \<open>\<open>lit in s.lower()\<close> and, the same test, an unanchored search for a literal under
  \<open>re.I\<close>.\<close>

fun contains_ci :: "string \<Rightarrow> string \<Rightarrow> bool" where
  "contains_ci lit [] = (lit = [])"
| "contains_ci lit (c # cs) = (if ci_prefix lit (c # cs) then True else contains_ci lit cs)"

text \<open>\<open>str.splitlines()\<close>: the lines without their line breaks; a carriage return
  followed by a line feed is one break; a text that ends with a break has no empty last
  line.\<close>

fun splitlines :: "string \<Rightarrow> string list" where
  "splitlines [] = []"
| "splitlines (c # cs) =
     (if is_linebreak c then
        (case cs of
           d # ds \<Rightarrow> if c = CR \<and> d = LF then [] # splitlines ds else [] # splitlines cs
         | [] \<Rightarrow> [[]])
      else
        (case splitlines cs of
           [] \<Rightarrow> [[c]]
         | l # ls \<Rightarrow> (c # l) # ls))"

text \<open>\<open>"\n".join(out)\<close>.\<close>

fun join_lines :: "string list \<Rightarrow> string" where
  "join_lines [] = []"
| "join_lines [x] = x"
| "join_lines (x # y # ys) = x @ LF # join_lines (y # ys)"

text \<open>\<open>text.endswith("\n")\<close>.\<close>

definition ends_with_newline :: "string \<Rightarrow> bool" where
  "ends_with_newline text = (text \<noteq> [] \<and> last text = LF)"

definition head :: "'a list \<Rightarrow> 'a option" where
  "head xs = (case xs of [] \<Rightarrow> None | x # _ \<Rightarrow> Some x)"

section \<open>The SQL heuristics\<close>

text \<open>
  \<open>SQL_KEYWORDS\<close> is \<open>\b(SELECT|...|GROUP\s+BY|ORDER\s+BY|...)\b\<close> with \<open>re.I\<close>. Each
  alternative is a list of words: the words are literals separated by \<open>\s+\<close>.
  Only the truth value of \<open>SQL_KEYWORDS.search\<close> is used, so the order of the
  alternatives does not matter.
\<close>

definition SQL_KEYWORDS_fix :: "string list list" where
  "SQL_KEYWORDS_fix =
     [[''select''], [''insert''], [''update''], [''delete''], [''create''], [''with''],
      [''from''], [''where''], [''group'', ''by''], [''order'', ''by''], [''join''],
      [''having''], [''union''], [''values''], [''cast''], [''sum''], [''avg''],
      [''count''], [''min''], [''max'']]"

definition SQL_KEYWORDS_bold :: "string list list" where
  "SQL_KEYWORDS_bold =
     [[''select''], [''insert''], [''update''], [''delete''], [''create''], [''with''],
      [''from''], [''where''], [''group'', ''by''], [''order'', ''by''], [''join''],
      [''having''], [''union''], [''values'']]"

text \<open>One alternative at the start of \<open>s\<close>: the number of characters it takes. After a
  word, \<open>\s+\<close> takes every white space character that follows: the next word starts with
  a letter.\<close>

fun match_words :: "string list \<Rightarrow> string \<Rightarrow> nat option" where
  "match_words [] s = Some 0"
| "match_words [w] s = (if ci_prefix w s then Some (length w) else None)"
| "match_words (w # w' # ws) s =
     (if ci_prefix w s then
        (let r = drop (length w) s; k = length (takeWhile isspace r) in
         if k = 0 then None
         else map_option (\<lambda>m. length w + k + m) (match_words (w' # ws) (drop k r)))
      else None)"

text \<open>\<open>\b\<close> between two neighbouring positions, \<open>None\<close> being the outside of the
  string.\<close>

definition word_boundary :: "char option \<Rightarrow> char option \<Rightarrow> bool" where
  "word_boundary p n =
     ((case p of None \<Rightarrow> False | Some c \<Rightarrow> is_word c) \<noteq> (case n of None \<Rightarrow> False | Some c \<Rightarrow> is_word c))"

text \<open>One alternative at the start of \<open>s\<close>, and the \<open>\b\<close> behind it.\<close>

definition keyword_at :: "string \<Rightarrow> string list \<Rightarrow> bool" where
  "keyword_at s kw =
     (case match_words kw s of
        None \<Rightarrow> False
      | Some n \<Rightarrow> word_boundary (head (drop (n - 1) s)) (head (drop n s)))"

text \<open>\<open>SQL_KEYWORDS.search(inner)\<close> as a truth value; \<open>prev\<close> is the character before
  the position tried, for the \<open>\b\<close> in front.\<close>

fun search_keywords :: "string list list \<Rightarrow> char option \<Rightarrow> string \<Rightarrow> bool" where
  "search_keywords kws prev [] = False"
| "search_keywords kws prev (c # cs) =
     (if (if word_boundary prev (Some c) then list_ex (keyword_at (c # cs)) kws else False)
      then True
      else search_keywords kws (Some c) cs)"

text \<open>\<open>re.search(r"[,();=*<>\\]", inner)\<close> of the fix script and
  \<open>re.search(r"[,();=*<>]", inner)\<close> of the bold script, as truth values.\<close>

definition PUNCT_fix :: "char list" where
  "PUNCT_fix = [CHR '','', CHR ''('', CHR '')'', CHR '';'', CHR ''='', CHR ''*'', CHR ''<'', CHR ''>'', CHR 0x5C]"

definition PUNCT_bold :: "char list" where
  "PUNCT_bold = [CHR '','', CHR ''('', CHR '')'', CHR '';'', CHR ''='', CHR ''*'', CHR ''<'', CHR ''>'']"

definition search_punct :: "char list \<Rightarrow> string \<Rightarrow> bool" where
  "search_punct cls inner = list_ex (\<lambda>c. c \<in> set cls) inner"

section \<open>fix\_divs\_and\_blockquotes\_sql.py\<close>

subsection \<open>remove\_div\_code\_blocks\<close>

text \<open>
  \<open>DIV_IN_CODE_RE\<close> is
  \<^verbatim>\<open>```sql\s*(<div[^>]*?text-align:[^>]*?>.*?</div>)\s*```\<close> with \<open>re.S | re.I\<close>.
  A match that starts at the head of \<open>s\<close> is found as the backtracking matcher finds it:
  \<^item> the literal \<^verbatim>\<open>```sql\<close>, then \<open>\s*\<close>, which has to take all the white
    space there is, the next literal starting with \<open><\<close>;
  \<^item> \<open><div\<close>, then \<open>[^>]*?text-align:[^>]*?>\<close>: the two lazy classes cannot cross a
    \<open>>\<close>, so the literal \<open>text-align:\<close> lies before the first \<open>>\<close> that follows
    \<open><div\<close>, and the match goes on right after that \<open>>\<close>;
  \<^item> \<open>.*?</div>\s*```\<close>: the lazy \<open>.*?\<close> (any character, by \<open>re.S\<close>) stops at the first
    \<open></div>\<close> after which white space and the closing fence follow (\<open>find_close\<close>).
\<close>

text \<open>\<open>find_close body\<close>: the length of the shortest prefix of \<open>body\<close> that ends with
  \<open></div>\<close> and is followed by \<open>\s*```\<close>, and the text after that fence.\<close>

fun find_close :: "string \<Rightarrow> (nat \<times> string) option" where
  "find_close [] = None"
| "find_close (c # cs) =
     (if (if ci_prefix ''</div>'' (c # cs)
          then take 3 (dropWhile isspace (drop 6 (c # cs))) = ''```'' else False)
      then Some (6, drop 3 (dropWhile isspace (drop 6 (c # cs))))
      else map_option (\<lambda>(k, r). (Suc k, r)) (find_close cs))"

text \<open>A match of \<open>DIV_IN_CODE_RE\<close> at the head of \<open>s\<close>: its group 1 and the text after
  the match.\<close>

definition match_div_at :: "string \<Rightarrow> (string \<times> string) option" where
  "match_div_at s =
     (if \<not> ci_prefix ''```sql'' s then None
      else
        (let g = dropWhile isspace (drop 6 s) in
         if \<not> ci_prefix ''<div'' g then None
         else
           (let attrs = takeWhile (\<lambda>c. c \<noteq> CHR ''>'') (drop 4 g) in
            (case dropWhile (\<lambda>c. c \<noteq> CHR ''>'') (drop 4 g) of
               [] \<Rightarrow> None
             | gt # body \<Rightarrow>
                 if \<not> contains_ci ''text-align:'' attrs then None
                 else
                   (case find_close body of
                      None \<Rightarrow> None
                    | Some (k, rest) \<Rightarrow> Some (take (4 + length attrs + 1 + k) g, rest))))))"

text \<open>\<open>contains_div_in_code\<close>: \<open>bool(DIV_IN_CODE_RE.search(text))\<close>.\<close>

fun contains_div_in_code :: "string \<Rightarrow> bool" where
  "contains_div_in_code [] = False"
| "contains_div_in_code (c # cs) = (match_div_at (c # cs) \<noteq> None \<or> contains_div_in_code cs)"

lemma find_close_length: "find_close body = Some (k, rest) \<Longrightarrow> length rest < length body"
proof (induction body arbitrary: k rest)
  case Nil
  then show ?case by simp
next
  case (Cons c cs)
  show ?case
  proof (cases "ci_prefix ''</div>'' (c # cs) \<and> take 3 (dropWhile isspace (drop 6 (c # cs))) = ''```''")
    case True
    with Cons.prems have r: "rest = drop 3 (dropWhile isspace (drop 6 (c # cs)))"
      by (simp split: if_splits)
    have "length (dropWhile isspace (drop 6 (c # cs))) \<le> length (drop 6 (c # cs))"
      by (rule length_dropWhile_le)
    then show ?thesis unfolding r by simp
  next
    case False
    with Cons.prems obtain k' where "find_close cs = Some (k', rest)"
      by (auto split: if_splits)
    from Cons.IH [OF this] show ?thesis by simp
  qed
qed

lemma match_div_at_length: "match_div_at s = Some (g, rest) \<Longrightarrow> length rest < length s"
proof -
  assume m: "match_div_at s = Some (g, rest)"
  define a where "a = drop 4 (dropWhile isspace (drop 6 s))"
  from m obtain gt body k where d: "dropWhile (\<lambda>c. c \<noteq> CHR ''>'') a = gt # body"
    and f: "find_close body = Some (k, rest)"
    unfolding match_div_at_def a_def Let_def
    by (auto split: if_splits list.splits option.splits)
  have "length (dropWhile (\<lambda>c. c \<noteq> CHR ''>'') a) \<le> length a"
    by (rule length_dropWhile_le)
  with d have "length body < length a" by simp
  moreover have "length a \<le> length s"
  proof -
    have "length (dropWhile isspace (drop 6 s)) \<le> length (drop 6 s)"
      by (rule length_dropWhile_le)
    then show ?thesis unfolding a_def by simp
  qed
  ultimately show ?thesis using find_close_length [OF f] by simp
qed

text \<open>\<open>DIV_IN_CODE_RE.sub(lambda m: m.group(1), text)\<close>: the matches are replaced from
  left to right, the search going on where the last match ended.\<close>

function remove_div_code_blocks :: "string \<Rightarrow> string" where
  "remove_div_code_blocks [] = []"
| "remove_div_code_blocks (c # cs) =
     (case match_div_at (c # cs) of
        Some (g, rest) \<Rightarrow> g @ remove_div_code_blocks rest
      | None \<Rightarrow> c # remove_div_code_blocks cs)"
  by pat_completeness auto
termination
proof (relation "measure length")
  show "wf (measure length)" by simp
next
  fix c cs x2 g rest
  assume "match_div_at (c # cs) = Some x2" and "(g, rest) = x2"
  then have "match_div_at (c # cs) = Some (g, rest)" by simp
  from match_div_at_length [OF this] show "(rest, c # cs) \<in> measure length"
    by simp
next
  fix c :: char and cs :: string
  show "(cs, c # cs) \<in> measure length" by simp
qed

subsection \<open>is\_blockquote\_sql\_line\<close>

text \<open>
  \<open>re.match(r"^\s*>\s*(.*\S.*)?$", s)\<close> and \<open>m.group(1) or ""\<close>. The first character
  after the leading white space has to be \<open>>\<close>. After it \<open>\s*\<close> takes all the white
  space; what is left is group 1 when it is not empty. The dot does not match a line
  feed and \<open>$\<close> also matches before a line feed that ends the string, so a rest with a
  line feed matches only when the line feed is its last character, which stays outside
  the group. (The lines that \<open>splitlines\<close> returns hold no line feed.)
\<close>

definition blockquote_inner :: "string \<Rightarrow> string option" where
  "blockquote_inner s =
     (case dropWhile isspace s of
        [] \<Rightarrow> None
      | c # r \<Rightarrow>
          if c \<noteq> CHR ''>'' then None
          else
            (let r' = dropWhile isspace r in
             if r' = [] then Some []
             else if LF \<notin> set r' then Some r'
             else if last r' = LF \<and> LF \<notin> set (butlast r') then Some (butlast r')
             else None))"

text \<open>The result is \<open>None\<close> for Python's \<open>None\<close>, \<open>Some []\<close> for the empty string of a
  blank quoted line, \<open>Some inner\<close> for a SQL candidate.\<close>

definition is_blockquote_sql_line :: "string \<Rightarrow> string option" where
  "is_blockquote_sql_line s =
     (case blockquote_inner s of
        None \<Rightarrow> None
      | Some inner \<Rightarrow>
          if inner = [] then Some []
          else if (if search_keywords SQL_KEYWORDS_fix None inner then True
                   else search_punct PUNCT_fix inner)
          then Some inner
          else None)"

subsection \<open>convert\_blockquote\_sequences\<close>

text \<open>The inner loop \<open>while j < n\<close>, started at \<open>j = i\<close> on the lines from \<open>i\<close> on: it
  returns \<open>sql_lines\<close>, \<open>saw_nonempty\<close> and the lines from \<open>j\<close> on.\<close>

fun collect_blockquote :: "string list \<Rightarrow> string list \<times> bool \<times> string list" where
  "collect_blockquote [] = ([], False, [])"
| "collect_blockquote (l # ls) =
     (case is_blockquote_sql_line l of
        None \<Rightarrow> ([], False, l # ls)
      | Some r \<Rightarrow>
          (case collect_blockquote ls of
             (sql_lines, saw_nonempty, rest) \<Rightarrow> (r # sql_lines, r \<noteq> [] \<or> saw_nonempty, rest)))"

text \<open>The two \<open>while\<close> loops that pop empty strings from the front and from the back of
  \<open>sql_lines\<close>.\<close>

definition trim_blank :: "string list \<Rightarrow> string list" where
  "trim_blank sql_lines = rev (dropWhile (\<lambda>x. x = []) (rev (dropWhile (\<lambda>x. x = []) sql_lines)))"

lemma collect_blockquote_length:
  "collect_blockquote ls = (sql_lines, saw, rest) \<Longrightarrow> length sql_lines + length rest = length ls"
  by (induction ls arbitrary: sql_lines saw rest) (auto split: option.splits prod.splits)

text \<open>The outer loop \<open>while i < n\<close> on the lines from \<open>i\<close> on, with the list \<open>out\<close>
  built so far. \<open>lines[i:j]\<close> is the lines that the inner loop went over, as many as
  \<open>sql_lines\<close> has entries.\<close>

function convert_loop :: "string list \<Rightarrow> string list \<Rightarrow> string list" where
  "convert_loop out [] = out"
| "convert_loop out (l # ls) =
     (case is_blockquote_sql_line l of
        None \<Rightarrow> convert_loop (out @ [l]) ls
      | Some res \<Rightarrow>
          (case collect_blockquote (l # ls) of
             (sql_lines, saw_nonempty, rest) \<Rightarrow>
               if saw_nonempty
               then convert_loop (out @ [''```sql''] @ trim_blank sql_lines @ [''```'']) rest
               else convert_loop (out @ take (length sql_lines) (l # ls)) rest))"
  by pat_completeness auto
termination
  apply (relation "measure (\<lambda>(out, ls). length ls)")
    apply simp
   apply simp
  apply (auto split: option.splits prod.splits dest: collect_blockquote_length)
  done

definition convert_blockquote_sequences :: "string \<Rightarrow> string" where
  "convert_blockquote_sequences text =
     join_lines (convert_loop [] (splitlines text)) @ (if ends_with_newline text then [LF] else [])"

section \<open>normalize\_bold\_sql.py\<close>

subsection \<open>is\_bold\_sql\_line\<close>

definition rstrip_ws :: "string \<Rightarrow> string" where
  "rstrip_ws s = rev (dropWhile isspace (rev s))"

text \<open>
  \<open>re.match(r"^\s*(>\s*)?\*\*(.*?)\*\*\s*$", line)\<close> and \<open>m.group(2)\<close>. After the
  leading white space, and after a \<open>>\<close> with the white space behind it when there is one,
  the line goes on with two asterisks. The closing asterisks are the last two characters
  before the trailing white space, so the lazy group 2 is all that lies between; the dot
  of the group does not match a line feed.
\<close>

definition bold_inner :: "string \<Rightarrow> string option" where
  "bold_inner line =
     (let s1 = dropWhile isspace line;
          s2 = (case s1 of
                  [] \<Rightarrow> s1
                | c # r \<Rightarrow> if c = CHR ''>'' then dropWhile isspace r else s1)
      in if take 2 s2 \<noteq> ''**'' then None
         else
           (let body = rstrip_ws (drop 2 s2);
                inner = take (length body - 2) body
            in if 2 \<le> length body \<and> drop (length body - 2) body = ''**'' \<and> LF \<notin> set inner
               then Some inner else None))"

definition is_bold_sql_line :: "string \<Rightarrow> string option" where
  "is_bold_sql_line line =
     (case bold_inner line of
        None \<Rightarrow> None
      | Some inner \<Rightarrow>
          if (if contains_ci ''<div'' inner then True else contains_ci ''</div>'' inner) then None
          else if (if search_keywords SQL_KEYWORDS_bold None inner then True
                   else search_punct PUNCT_bold inner)
          then Some inner
          else None)"

subsection \<open>The scan of normalize\_file\<close>

text \<open>\<open>re.match(r"^\s*```", line)\<close>.\<close>

definition is_fence_line :: "string \<Rightarrow> bool" where
  "is_fence_line line = (take 3 (dropWhile isspace line) = ''```'')"

text \<open>The inner loop \<open>while j < n\<close>, started at \<open>j = i + 1\<close> on the lines from \<open>i + 1\<close>
  on: it returns what it appends to \<open>sql_lines\<close> and the lines from \<open>j\<close> on.\<close>

fun collect_bold :: "string list \<Rightarrow> string list \<times> string list" where
  "collect_bold [] = ([], [])"
| "collect_bold (l # ls) =
     (case is_bold_sql_line l of
        None \<Rightarrow> ([], l # ls)
      | Some nxt \<Rightarrow> (case collect_bold ls of (sql_lines, rest) \<Rightarrow> (nxt # sql_lines, rest)))"

lemma collect_bold_length:
  "collect_bold ls = (sql_lines, rest) \<Longrightarrow> length sql_lines + length rest = length ls"
  by (induction ls arbitrary: sql_lines rest) (auto split: option.splits prod.splits)

record scan_state =
  out_lines :: "string list"
  in_fence :: bool
  changed :: bool

text \<open>The outer loop \<open>while i < n\<close> on the lines from \<open>i\<close> on.\<close>

function bold_loop :: "scan_state \<Rightarrow> string list \<Rightarrow> scan_state" where
  "bold_loop st [] = st"
| "bold_loop st (line # ls) =
     (if is_fence_line line
      then bold_loop (st\<lparr>in_fence := \<not> in_fence st, out_lines := out_lines st @ [line]\<rparr>) ls
      else
        (case (if \<not> in_fence st then is_bold_sql_line line else None) of
           Some m \<Rightarrow>
             (case collect_bold ls of
                (extra, rest) \<Rightarrow>
                  bold_loop
                    (st\<lparr>out_lines := out_lines st @ [''```sql''] @ (m # extra) @ [''```''],
                        changed := True\<rparr>)
                    rest)
         | None \<Rightarrow> bold_loop (st\<lparr>out_lines := out_lines st @ [line]\<rparr>) ls))"
  by pat_completeness auto
termination
  apply (relation "measure (\<lambda>(st, ls). length ls)")
     apply simp
    apply simp
   apply (auto split: option.splits prod.splits if_splits dest: collect_bold_length [OF sym])
  done

definition initial_state :: scan_state where
  "initial_state = \<lparr>out_lines = [], in_fence = False, changed = False\<rparr>"

section \<open>The files\<close>

text \<open>
  A file system holds the decoded text of each file and, in \<open>writes\<close>, the writes in
  the order in which they happened. \<open>Path.read_text\<close> opens the file in text mode, where
  a carriage return, alone or before a line feed, is read as a line feed; a missing
  file raises. \<open>Path.write_text\<close> stores the text (on a system whose line separator is
  the line feed) and is taken to succeed.
\<close>

datatype error = FileNotFoundError

record filesystem =
  files :: "string \<Rightarrow> string option"
  writes :: "(string \<times> string) list"

fun universal_newlines :: "string \<Rightarrow> string" where
  "universal_newlines [] = []"
| "universal_newlines (c # cs) =
     (if c = CR then
        (case cs of
           [] \<Rightarrow> [LF]
         | d # ds \<Rightarrow> if d = LF then LF # universal_newlines ds else LF # universal_newlines cs)
      else c # universal_newlines cs)"

definition read_text :: "string \<Rightarrow> filesystem \<Rightarrow> error + string" where
  "read_text path fs =
     (case files fs path of
        None \<Rightarrow> Inl FileNotFoundError
      | Some content \<Rightarrow> Inr (universal_newlines content))"

definition write_text :: "string \<Rightarrow> string \<Rightarrow> filesystem \<Rightarrow> filesystem" where
  "write_text path text fs =
     fs\<lparr>files := (files fs)(path \<mapsto> text), writes := writes fs @ [(path, text)]\<rparr>"

text \<open>\<open>path.with_suffix(path.suffix + s)\<close> appends \<open>s\<close> to the file name.\<close>

definition with_added_suffix :: "string \<Rightarrow> string \<Rightarrow> string" where
  "with_added_suffix path s = path @ s"

text \<open>\<open>normalize_file\<close> of fix\_divs\_and\_blockquotes\_sql.py.\<close>

definition fix_text :: "string \<Rightarrow> string" where
  "fix_text orig = convert_blockquote_sequences (remove_div_code_blocks orig)"

definition normalize_file_fix :: "string \<Rightarrow> filesystem \<Rightarrow> error + (bool \<times> filesystem)" where
  "normalize_file_fix path fs =
     (case read_text path fs of
        Inl e \<Rightarrow> Inl e
      | Inr orig \<Rightarrow>
          (let text = remove_div_code_blocks orig;
               text = convert_blockquote_sequences text
           in if text \<noteq> orig
              then
                (let bak = with_added_suffix path ''.fixbak'';
                     fs = write_text bak orig fs;
                     fs = write_text path text fs
                 in Inr (True, fs))
              else Inr (False, fs)))"


text \<open>The text that the file holds after \<open>normalize_file\<close> of the bold script, from the
  text read: the new text when a line was converted, the text read otherwise.\<close>

definition bold_text :: "string \<Rightarrow> string" where
  "bold_text text =
     (let st = bold_loop initial_state (splitlines text)
      in if changed st then join_lines (out_lines st) @ [LF] else text)"

section \<open>Properties of the scan of the bold script\<close>

lemma fence_line_not_bold: "is_fence_line l \<Longrightarrow> is_bold_sql_line l = None"
proof -
  assume "is_fence_line l"
  then have t: "take 3 (dropWhile isspace l) = ''```''" by (simp add: is_fence_line_def)
  then obtain c r where d: "dropWhile isspace l = c # r" by (cases "dropWhile isspace l") auto
  with t have c: "c = CHR 0x60" by simp
  from t d c have "take 2 (dropWhile isspace l) \<noteq> ''**''" by (cases r) auto
  with d c have "bold_inner l = None" by (simp add: bold_inner_def)
  then show ?thesis by (simp add: is_bold_sql_line_def)
qed

lemma collect_bold_append:
  "collect_bold ls = (extra, rest) \<Longrightarrow> is_bold_sql_line x = None \<Longrightarrow>
   collect_bold (ls @ x # tl0) = (extra, rest @ x # tl0)"
  by (induction ls arbitrary: extra rest) (auto split: option.splits prod.splits)

lemma collect_bold_fences:
  "collect_bold ls = (extra, rest) \<Longrightarrow> filter is_fence_line rest = filter is_fence_line ls"
proof (induction ls arbitrary: extra rest)
  case Nil
  then show ?case by simp
next
  case (Cons l ls)
  show ?case
  proof (cases "is_bold_sql_line l")
    case None
    with Cons.prems show ?thesis by simp
  next
    case (Some nxt)
    then have nf: "\<not> is_fence_line l" using fence_line_not_bold by fastforce
    from Some Cons.prems obtain extra' where "collect_bold ls = (extra', rest)"
      by (auto split: prod.splits)
    from Cons.IH [OF this] nf show ?thesis by simp
  qed
qed

lemma bold_loop_fence_step:
  "is_fence_line l \<Longrightarrow>
   bold_loop st (l # ls) = bold_loop (st\<lparr>in_fence := \<not> in_fence st, out_lines := out_lines st @ [l]\<rparr>) ls"
  by simp

lemma bold_loop_inside_fence:
  "in_fence st \<Longrightarrow> \<forall>l\<in>set body. \<not> is_fence_line l \<Longrightarrow>
   bold_loop st (body @ rest) = bold_loop (st\<lparr>out_lines := out_lines st @ body\<rparr>) rest"
proof (induction body arbitrary: st)
  case Nil
  then show ?case by simp
next
  case (Cons l body)
  from Cons.prems have "bold_loop st ((l # body) @ rest)
      = bold_loop (st\<lparr>out_lines := out_lines st @ [l]\<rparr>) (body @ rest)"
    by simp
  also have "\<dots> = bold_loop (st\<lparr>out_lines := out_lines st @ [l]\<rparr>\<lparr>out_lines := out_lines (st\<lparr>out_lines := out_lines st @ [l]\<rparr>) @ body\<rparr>) rest"
    using Cons.prems by (intro Cons.IH) simp_all
  finally show ?case by simp
qed

lemma bold_loop_split_at_fence:
  "is_fence_line x \<Longrightarrow> bold_loop st (pre @ x # tl0) = bold_loop (bold_loop st pre) (x # tl0)"
proof (induction st pre rule: bold_loop.induct)
  case (1 st)
  then show ?case by simp
next
  case (2 st line ls)
  show ?case
  proof (cases "is_fence_line line")
    case True
    with 2 show ?thesis by simp
  next
    case nf: False
    show ?thesis
    proof (cases "if \<not> in_fence st then is_bold_sql_line line else None")
      case None
      with nf 2 show ?thesis by simp
    next
      case (Some m)
      obtain extra rest where c: "collect_bold ls = (extra, rest)" by (cases "collect_bold ls")
      from "2.prems" have "is_bold_sql_line x = None" by (rule fence_line_not_bold)
      from collect_bold_append [OF c this]
      have c': "collect_bold (ls @ x # tl0) = (extra, rest @ x # tl0)" .
      from "2.IH"(3) [OF nf Some c [symmetric] "2.prems"] nf Some c c'
      show ?thesis by simp
    qed
  qed
qed

lemma bold_loop_in_fence:
  "in_fence (bold_loop st ls) = (in_fence st \<noteq> odd (length (filter is_fence_line ls)))"
proof (induction st ls rule: bold_loop.induct)
  case (1 st)
  then show ?case by simp
next
  case (2 st line ls)
  show ?case
  proof (cases "is_fence_line line")
    case True
    with 2 show ?thesis by auto
  next
    case nf: False
    show ?thesis
    proof (cases "if \<not> in_fence st then is_bold_sql_line line else None")
      case None
      with nf 2 show ?thesis by simp
    next
      case (Some m)
      obtain extra rest where c: "collect_bold ls = (extra, rest)" by (cases "collect_bold ls")
      from "2.IH"(3) [OF nf Some c [symmetric]] nf Some c collect_bold_fences [OF c]
      show ?thesis by simp
    qed
  qed
qed

lemma filter_no_fence: "\<forall>l\<in>set xs. \<not> is_fence_line l \<Longrightarrow> filter is_fence_line xs = []"
  by (induction xs) auto

lemma in_fence_False_update:
  "\<not> in_fence S \<Longrightarrow> S\<lparr>in_fence := False, out_lines := xs\<rparr> = S\<lparr>out_lines := xs\<rparr>"
  by (cases S) simp

text \<open>
  Claim C5. In the scan of the bold script, the lines between an opening fence line
  (a fence line before which an even number of fence lines stand) and the next fence line
  are appended to the output as they are, whatever they look like, and the state after
  them is the state before them: none of them is classified or converted. After any
  lines, the scan is inside a fence exactly when it has passed an odd number of lines
  that begin, after white space, with the fence delimiter.
\<close>

theorem fenced_lines_pass_through:
  assumes "is_fence_line opening" and "is_fence_line closing"
    and "\<forall>l\<in>set body. \<not> is_fence_line l"
    and "even (length (filter is_fence_line pre))"
  shows "bold_loop initial_state (pre @ opening # body @ closing # post) =
           bold_loop
             ((bold_loop initial_state pre)
                \<lparr>out_lines := out_lines (bold_loop initial_state pre) @ opening # body @ [closing]\<rparr>)
             post
         \<and> in_fence (bold_loop initial_state ls) = odd (length (filter is_fence_line ls))"
proof
  define S where "S = bold_loop initial_state pre"
  have nf: "\<not> in_fence S"
    unfolding S_def using assms(4) by (simp add: bold_loop_in_fence initial_state_def)
  define S1 where "S1 = S\<lparr>in_fence := \<not> in_fence S, out_lines := out_lines S @ [opening]\<rparr>"
  have in1: "in_fence S1" using nf by (simp add: S1_def)
  have "bold_loop initial_state (pre @ opening # body @ closing # post)
      = bold_loop S (opening # body @ closing # post)"
    unfolding S_def using assms(1) by (rule bold_loop_split_at_fence)
  also have "\<dots> = bold_loop S1 (body @ closing # post)"
    unfolding S1_def using assms(1) by (rule bold_loop_fence_step)
  also have "\<dots> = bold_loop (S1\<lparr>out_lines := out_lines S1 @ body\<rparr>) (closing # post)"
    using in1 assms(3) by (rule bold_loop_inside_fence)
  also have "\<dots> = bold_loop (S\<lparr>out_lines := out_lines S @ opening # body @ [closing]\<rparr>) post"
    using assms(2) nf by (simp add: S1_def in_fence_False_update)
  finally show "bold_loop initial_state (pre @ opening # body @ closing # post) =
           bold_loop
             ((bold_loop initial_state pre)
                \<lparr>out_lines := out_lines (bold_loop initial_state pre) @ opening # body @ [closing]\<rparr>)
             post"
    unfolding S_def .
next
  show "in_fence (bold_loop initial_state ls) = odd (length (filter is_fence_line ls))"
    by (simp add: bold_loop_in_fence initial_state_def)
qed

theorem fenced_lines_pass_through_witness:
  "is_bold_sql_line ''**SELECT 1;**'' = Some ''SELECT 1;''
   \<and> out_lines (bold_loop initial_state
        [''Intro'', ''```sql'', ''**SELECT 1;**'', ''```'', ''**SELECT 2;**''])
     = [''Intro'', ''```sql'', ''**SELECT 1;**'', ''```'', ''```sql'', ''SELECT 2;'', ''```'']"
proof -
  have h1: "is_fence_line ''```sql''" by code_simp
  have h2: "is_fence_line ''```''" by code_simp
  have h3: "\<forall>l\<in>set [''**SELECT 1;**'']. \<not> is_fence_line l" by code_simp
  have h4: "even (length (filter is_fence_line [''Intro'']))" by code_simp
  have b: "is_bold_sql_line ''**SELECT 1;**'' = Some ''SELECT 1;''" by code_simp
  have e: "out_lines (bold_loop
             ((bold_loop initial_state [''Intro''])
                \<lparr>out_lines := out_lines (bold_loop initial_state [''Intro''])
                   @ ''```sql'' # [''**SELECT 1;**''] @ [''```'']\<rparr>)
             [''**SELECT 2;**''])
     = [''Intro'', ''```sql'', ''**SELECT 1;**'', ''```'', ''```sql'', ''SELECT 2;'', ''```'']"
    by code_simp
  have "bold_loop initial_state
          ([''Intro''] @ ''```sql'' # [''**SELECT 1;**''] @ ''```'' # [''**SELECT 2;**''])
      = bold_loop
          ((bold_loop initial_state [''Intro''])
             \<lparr>out_lines := out_lines (bold_loop initial_state [''Intro''])
                @ ''```sql'' # [''**SELECT 1;**''] @ [''```'']\<rparr>)
          [''**SELECT 2;**'']"
    using fenced_lines_pass_through [OF h1 h2 h3 h4] by (rule conjunct1)
  then have "out_lines (bold_loop initial_state
        [''Intro'', ''```sql'', ''**SELECT 1;**'', ''```'', ''**SELECT 2;**''])
     = [''Intro'', ''```sql'', ''**SELECT 1;**'', ''```'', ''```sql'', ''SELECT 2;'', ''```'']"
    unfolding e [symmetric] by (simp only: append_Cons append_Nil)
  with b show ?thesis ..
qed

text \<open>
  Claim C10. A line that begins with the fence delimiter is appended as it is and flips
  the flag, whatever the state. When the input holds an odd number of such lines, the
  lines after the last of them are appended as they are and \<open>changed\<close> stays what it was
  before them: the scan is inside a fence up to the end of the input.
\<close>

theorem odd_fences_freeze_tail:
  assumes "is_fence_line f" and "\<forall>l\<in>set rest. \<not> is_fence_line l"
    and "odd (length (filter is_fence_line (pre @ f # rest)))"
  shows "bold_loop st (f # ls) =
           bold_loop (st\<lparr>in_fence := \<not> in_fence st, out_lines := out_lines st @ [f]\<rparr>) ls
         \<and> bold_loop initial_state (pre @ f # rest) =
             (bold_loop initial_state pre)
               \<lparr>in_fence := True,
                out_lines := out_lines (bold_loop initial_state pre) @ f # rest\<rparr>"
proof
  show "bold_loop st (f # ls) =
      bold_loop (st\<lparr>in_fence := \<not> in_fence st, out_lines := out_lines st @ [f]\<rparr>) ls"
    using assms(1) by (rule bold_loop_fence_step)
next
  define S where "S = bold_loop initial_state pre"
  from assms have "even (length (filter is_fence_line pre))"
    by (simp add: filter_no_fence)
  then have nf: "\<not> in_fence S"
    unfolding S_def by (simp add: bold_loop_in_fence initial_state_def)
  define S1 where "S1 = S\<lparr>in_fence := \<not> in_fence S, out_lines := out_lines S @ [f]\<rparr>"
  have in1: "in_fence S1" using nf by (simp add: S1_def)
  have "bold_loop initial_state (pre @ f # rest) = bold_loop S (f # rest)"
    unfolding S_def using assms(1) by (rule bold_loop_split_at_fence)
  also have "\<dots> = bold_loop S1 (rest @ [])"
    unfolding S1_def using assms(1) by (simp only: bold_loop_fence_step append_Nil2)
  also have "\<dots> = bold_loop (S1\<lparr>out_lines := out_lines S1 @ rest\<rparr>) []"
    using in1 assms(2) by (rule bold_loop_inside_fence)
  also have "\<dots> = S\<lparr>in_fence := True, out_lines := out_lines S @ f # rest\<rparr>"
    using nf by (simp add: S1_def)
  finally show "bold_loop initial_state (pre @ f # rest) =
             (bold_loop initial_state pre)
               \<lparr>in_fence := True,
                out_lines := out_lines (bold_loop initial_state pre) @ f # rest\<rparr>"
    unfolding S_def .
qed

theorem odd_fences_freeze_tail_witness:
  "is_bold_sql_line ''**SELECT 2;**'' = Some ''SELECT 2;''
   \<and> bold_loop initial_state [''**SELECT 1;**'', ''```'', ''**SELECT 2;**'', ''text'']
     = \<lparr>out_lines = [''```sql'', ''SELECT 1;'', ''```'', ''```'', ''**SELECT 2;**'', ''text''],
        in_fence = True, changed = True\<rparr>"
proof -
  have h1: "is_fence_line ''```''" by code_simp
  have h2: "\<forall>l\<in>set [''**SELECT 2;**'', ''text'']. \<not> is_fence_line l" by code_simp
  have h3: "odd (length (filter is_fence_line
      ([''**SELECT 1;**''] @ ''```'' # [''**SELECT 2;**'', ''text''])))"
    by code_simp
  have b: "is_bold_sql_line ''**SELECT 2;**'' = Some ''SELECT 2;''" by code_simp
  have e: "(bold_loop initial_state [''**SELECT 1;**''])
               \<lparr>in_fence := True,
                out_lines := out_lines (bold_loop initial_state [''**SELECT 1;**''])
                  @ ''```'' # [''**SELECT 2;**'', ''text'']\<rparr>
     = \<lparr>out_lines = [''```sql'', ''SELECT 1;'', ''```'', ''```'', ''**SELECT 2;**'', ''text''],
        in_fence = True, changed = True\<rparr>"
    by code_simp
  have "bold_loop initial_state ([''**SELECT 1;**''] @ ''```'' # [''**SELECT 2;**'', ''text''])
      = (bold_loop initial_state [''**SELECT 1;**''])
               \<lparr>in_fence := True,
                out_lines := out_lines (bold_loop initial_state [''**SELECT 1;**''])
                  @ ''```'' # [''**SELECT 2;**'', ''text'']\<rparr>"
    using odd_fences_freeze_tail [OF h1 h2 h3] by (rule conjunct2)
  then have "bold_loop initial_state [''**SELECT 1;**'', ''```'', ''**SELECT 2;**'', ''text'']
     = \<lparr>out_lines = [''```sql'', ''SELECT 1;'', ''```'', ''```'', ''**SELECT 2;**'', ''text''],
        in_fence = True, changed = True\<rparr>"
    unfolding e by (simp only: append_Cons append_Nil)
  with b show ?thesis ..
qed

section \<open>The quote marker of is\_blockquote\_sql\_line\<close>

text \<open>
  Claim C7. The claim reads the quote marker of the line classifier of the blockquote
  converter as optional, as the comment above the pattern and the docstring of the module
  do: a line of SQL with no \<open>>\<close> at all would be a SQL candidate. The pattern asks for the
  marker: the line \<open>SELECT 1;\<close> is not classified, the line \<open>> SELECT 1;\<close> is.
\<close>

theorem is_blockquote_sql_line_needs_marker:
  "is_blockquote_sql_line ''SELECT 1;'' = None
   \<and> is_blockquote_sql_line ''> SELECT 1;'' = Some ''SELECT 1;''"
  by code_simp

section \<open>A bold line on its own\<close>

lemma not_space_star: "\<not> isspace (CHR ''*'')" by (simp add: isspace_def)

lemma bold_inner_wrapped:
  "LF \<notin> set inner \<Longrightarrow> bold_inner (''**'' @ inner @ ''**'') = Some inner"
  by (simp add: bold_inner_def rstrip_ws_def not_space_star)

text \<open>
  Claim C3. A line that is two asterisks, a content and two asterisks, whose content
  passes the SQL heuristic of the bold script (no line feed and no div tag in it), is
  classified with exactly that content. When the scan meets it outside a fence and the
  line after it is not a bold SQL line, the scan appends three lines for it: the opener
  \<^verbatim>\<open>```sql\<close>, the content, the closer \<^verbatim>\<open>```\<close>, and goes on with the
  next line.
\<close>

theorem single_bold_line_fenced:
  assumes "LF \<notin> set inner"
    and "\<not> contains_ci ''<div'' inner" and "\<not> contains_ci ''</div>'' inner"
    and "search_keywords SQL_KEYWORDS_bold None inner \<or> search_punct PUNCT_bold inner"
    and "\<not> in_fence st"
    and "ls = [] \<or> is_bold_sql_line (hd ls) = None"
  shows "is_bold_sql_line (''**'' @ inner @ ''**'') = Some inner
       \<and> bold_loop st ((''**'' @ inner @ ''**'') # ls) =
           bold_loop
             (st\<lparr>out_lines := out_lines st @ [''```sql'', inner, ''```''], changed := True\<rparr>)
             ls"
proof -
  let ?l = "''**'' @ inner @ ''**''"
  have b: "is_bold_sql_line ?l = Some inner"
    unfolding is_bold_sql_line_def bold_inner_wrapped [OF assms(1)]
    using assms(2-4) by auto
  have nf: "\<not> is_fence_line ?l"
    using b fence_line_not_bold [of ?l] by auto
  have c: "collect_bold ls = ([], ls)"
    using assms(6) by (cases ls) auto
  have "bold_loop st (?l # ls) =
           bold_loop
             (st\<lparr>out_lines := out_lines st @ [''```sql'', inner, ''```''], changed := True\<rparr>)
             ls"
  proof -
    have "bold_loop st (?l # ls) =
           bold_loop
             (st\<lparr>out_lines := out_lines st @ [''```sql''] @ [inner] @ [''```''], changed := True\<rparr>)
             ls"
      using b nf c assms(5) by (simp del: append.simps)
    then show ?thesis by simp
  qed
  with b show ?thesis ..
qed

theorem single_bold_line_fenced_witness:
  "bold_loop initial_state [''**SELECT 1;**''] =
     \<lparr>out_lines = [''```sql'', ''SELECT 1;'', ''```''], in_fence = False, changed = True\<rparr>
   \<and> bold_text ''**SELECT 1;**'' = ''```sql\<newline>SELECT 1;\<newline>```\<newline>''"
proof -
  have h1: "LF \<notin> set ''SELECT 1;''" by code_simp
  have h2: "\<not> contains_ci ''<div'' ''SELECT 1;''" by code_simp
  have h3: "\<not> contains_ci ''</div>'' ''SELECT 1;''" by code_simp
  have h4: "search_keywords SQL_KEYWORDS_bold None ''SELECT 1;'' \<or> search_punct PUNCT_bold ''SELECT 1;''"
    by code_simp
  have h5: "\<not> in_fence initial_state" by (simp add: initial_state_def)
  have h6: "([]::string list) = [] \<or> is_bold_sql_line (hd []) = None" by simp
  have "bold_loop initial_state ((''**'' @ ''SELECT 1;'' @ ''**'') # []) =
           bold_loop
             (initial_state\<lparr>out_lines := out_lines initial_state @ [''```sql'', ''SELECT 1;'', ''```''],
                changed := True\<rparr>)
             []"
    using single_bold_line_fenced [OF h1 h2 h3 h4 h5 h6] by (rule conjunct2)
  then have l: "bold_loop initial_state [''**SELECT 1;**''] =
     \<lparr>out_lines = [''```sql'', ''SELECT 1;'', ''```''], in_fence = False, changed = True\<rparr>"
    by (simp add: initial_state_def)
  have s: "splitlines ''**SELECT 1;**'' = [''**SELECT 1;**'']" by code_simp
  have "bold_text ''**SELECT 1;**'' = ''```sql\<newline>SELECT 1;\<newline>```\<newline>''"
    unfolding bold_text_def s l by simp
  with l show ?thesis ..
qed

section \<open>Runs of quoted lines\<close>

lemma collect_blockquote_run:
  "list_all2 (\<lambda>l r. is_blockquote_sql_line l = Some r) run rs \<Longrightarrow>
   post = [] \<or> is_blockquote_sql_line (hd post) = None \<Longrightarrow>
   collect_blockquote (run @ post) = (rs, (\<exists>r\<in>set rs. r \<noteq> []), post)"
proof (induction run rs rule: list_all2_induct)
  case Nil
  then show ?case by (cases post) auto
next
  case (Cons l r run rs)
  then show ?case by auto
qed

lemma convert_loop_run:
  assumes "run \<noteq> []"
    and "list_all2 (\<lambda>l r. is_blockquote_sql_line l = Some r) run rs"
    and "post = [] \<or> is_blockquote_sql_line (hd post) = None"
  shows "convert_loop out (run @ post) =
           (if \<exists>r\<in>set rs. r \<noteq> []
            then convert_loop (out @ [''```sql''] @ trim_blank rs @ [''```'']) post
            else convert_loop (out @ run) post)"
proof -
  from assms(1) obtain l run' where run: "run = l # run'" by (cases run) auto
  with assms(2) obtain r rs' where rs: "rs = r # rs'" and l: "is_blockquote_sql_line l = Some r"
    by (cases rs) auto
  have len: "length rs = length run" using assms(2) by (simp add: list_all2_lengthD)
  have c: "collect_blockquote (l # run' @ post) = (rs, (\<exists>r\<in>set rs. r \<noteq> []), post)"
    using collect_blockquote_run [OF assms(2,3)] run by simp
  have t: "take (length rs) (l # run' @ post) = run" using len run by simp
  have "convert_loop out (l # run' @ post) =
           (if \<exists>r\<in>set rs. r \<noteq> []
            then convert_loop (out @ [''```sql''] @ trim_blank rs @ [''```'']) post
            else convert_loop (out @ take (length rs) (l # run' @ post)) post)"
    by (simp only: convert_loop.simps l option.case c prod.case)
  then show ?thesis unfolding t using run by simp
qed

lemma trim_blank_ends:
  assumes "mid \<noteq> []" and "hd mid \<noteq> []" and "last mid \<noteq> []"
  shows "trim_blank (replicate a [] @ mid @ replicate b []) = mid"
proof -
  let ?P = "\<lambda>x::string. x = []"
  have 1: "dropWhile ?P (replicate a [] @ mid @ replicate b []) = dropWhile ?P (mid @ replicate b [])"
    by (intro dropWhile_append2) simp
  have 2: "dropWhile ?P (mid @ replicate b []) = mid @ replicate b []"
    using assms(1,2) by (cases mid) auto
  have 3: "rev (mid @ replicate b []) = replicate b [] @ rev mid" by simp
  have 4: "dropWhile ?P (replicate b [] @ rev mid) = dropWhile ?P (rev mid)"
    by (intro dropWhile_append2) simp
  have "hd (rev mid) \<noteq> []" using assms(1,3) by (simp add: hd_rev)
  then have 5: "dropWhile ?P (rev mid) = rev mid" using assms(1) by (cases "rev mid") auto
  show ?thesis unfolding trim_blank_def 1 2 3 4 5 by simp
qed

lemma blank_ends_decomposition:
  "\<exists>a mid b. (rs :: string list) = replicate a [] @ mid @ replicate b []
     \<and> (mid \<noteq> [] \<longrightarrow> hd mid \<noteq> [] \<and> last mid \<noteq> [])"
proof -
  let ?P = "\<lambda>x::string. x = []"
  let ?rest = "dropWhile ?P rs"
  let ?mid = "rev (dropWhile ?P (rev ?rest))"
  let ?a = "length (takeWhile ?P rs)"
  let ?b = "length (takeWhile ?P (rev ?rest))"
  have r: "\<And>xs::string list. takeWhile ?P xs = replicate (length (takeWhile ?P xs)) []"
  proof -
    fix xs :: "string list"
    have "\<forall>y\<in>set (takeWhile ?P xs). y = []" by (auto dest: set_takeWhileD)
    then show "takeWhile ?P xs = replicate (length (takeWhile ?P xs)) []"
      by (simp add: replicate_length_same)
  qed
  have a1: "rs = takeWhile ?P rs @ ?rest" by simp
  have "rev (rev ?rest) = rev (takeWhile ?P (rev ?rest) @ dropWhile ?P (rev ?rest))"
    by (simp only: takeWhile_dropWhile_id)
  then have a2: "?rest = ?mid @ rev (takeWhile ?P (rev ?rest))"
    by (simp only: rev_rev_ident rev_append)
  have a3: "rev (takeWhile ?P (rev ?rest)) = replicate ?b []"
    by (subst r) simp
  have "rs = takeWhile ?P rs @ ?mid @ rev (takeWhile ?P (rev ?rest))"
    using a1 a2 by (simp only:)
  then have e: "rs = replicate ?a [] @ ?mid @ replicate ?b []"
    using r [of rs] a3 by (simp only:)
  have "?mid \<noteq> [] \<longrightarrow> hd ?mid \<noteq> [] \<and> last ?mid \<noteq> []"
  proof
    assume ne: "?mid \<noteq> []"
    then have d: "dropWhile ?P (rev ?rest) \<noteq> []" by simp
    then have l: "last ?mid \<noteq> []" using hd_dropWhile [OF d] by (simp add: last_rev)
    have rne: "?rest \<noteq> []"
    proof
      assume "?rest = []"
      then have "dropWhile ?P (rev ?rest) = []" by (simp only: rev.simps dropWhile.simps)
      with d show False ..
    qed
    have "hd ?mid = last (dropWhile ?P (rev ?rest))" using d by (simp add: hd_rev)
    also have "\<dots> = last (rev ?rest)"
    proof -
      have "rev ?rest = takeWhile ?P (rev ?rest) @ dropWhile ?P (rev ?rest)" by simp
      then have "last (rev ?rest) = last (takeWhile ?P (rev ?rest) @ dropWhile ?P (rev ?rest))"
        by simp
      also have "\<dots> = last (dropWhile ?P (rev ?rest))" using d by (rule last_appendR)
      finally show ?thesis by simp
    qed
    also have "\<dots> = hd ?rest" using rne by (simp add: last_rev)
    finally have "hd ?mid = hd ?rest" .
    with hd_dropWhile [OF rne] have "hd ?mid \<noteq> []" by simp
    with l show "hd ?mid \<noteq> [] \<and> last ?mid \<noteq> []" by simp
  qed
  with e show ?thesis by blast
qed

text \<open>
  Claim C6. Take a maximal run of quoted lines and write the list of its contents as
  \<open>a\<close> blank entries, a middle part \<open>mid\<close> that neither begins nor ends with a blank
  entry, and \<open>b\<close> blank entries (every list has this form). When \<open>mid\<close> is empty, that
  is when every line of the run is a blank quoted line, the lines of the run are
  appended to the output as they are and no fence is produced. Otherwise the run
  becomes one fenced block that holds \<open>mid\<close>: the blank entries at the two ends are
  dropped, the blank entries inside are kept.
\<close>

theorem blank_quoted_run_unchanged:
  assumes "run \<noteq> []"
    and "list_all2 (\<lambda>l r. is_blockquote_sql_line l = Some r) run
           (replicate a [] @ mid @ replicate b [])"
    and "mid \<noteq> [] \<longrightarrow> hd mid \<noteq> [] \<and> last mid \<noteq> []"
    and "post = [] \<or> is_blockquote_sql_line (hd post) = None"
  shows "convert_loop out (run @ post) =
           (if mid = [] then convert_loop (out @ run) post
            else convert_loop (out @ [''```sql''] @ mid @ [''```'']) post)"
proof (cases "mid = []")
  case True
  then have "\<not> (\<exists>r\<in>set (replicate a [] @ mid @ replicate b []). r \<noteq> [])" by auto
  with convert_loop_run [OF assms(1,2,4), of out] True show ?thesis
    by (simp only: if_False if_True simp_thms)
next
  case False
  with assms(3) have h: "hd mid \<noteq> []" and l: "last mid \<noteq> []" by simp_all
  from False h have "hd mid \<in> set mid" by simp
  with h have "\<exists>r\<in>set (replicate a [] @ mid @ replicate b []). r \<noteq> []" by auto
  with convert_loop_run [OF assms(1,2,4), of out] trim_blank_ends [OF False h l, of a b] False
  show ?thesis by (simp only: if_False if_True simp_thms)
qed

theorem blank_quoted_run_unchanged_witness:
  "convert_loop [] [''>'', ''>''] = [''>'', ''>'']
   \<and> convert_blockquote_sequences ''>\<newline>>'' = ''>\<newline>>''
   \<and> convert_loop [] [''>'', ''> SELECT 1;'', ''>'', ''> FROM t'', ''>'', ''>'', ''x''] =
       [''```sql'', ''SELECT 1;'', [], ''FROM t'', ''```'', ''x'']"
proof -
  have h1: "[''>'', ''>''] \<noteq> ([]::string list)" by simp
  have h2: "list_all2 (\<lambda>l r. is_blockquote_sql_line l = Some r) [''>'', ''>'']
              (replicate 2 [] @ [] @ replicate 0 [])"
    by code_simp
  have h3: "([]::string list) \<noteq> [] \<longrightarrow> hd ([]::string list) \<noteq> [] \<and> last ([]::string list) \<noteq> []"
    by simp
  have h4: "([]::string list) = [] \<or> is_blockquote_sql_line (hd []) = None" by simp
  have "convert_loop [] ([''>'', ''>''] @ []) =
          (if ([]::string list) = [] then convert_loop ([] @ [''>'', ''>'']) []
           else convert_loop ([] @ [''```sql''] @ [] @ [''```'']) [])"
    using h1 h2 h3 h4 by (rule blank_quoted_run_unchanged)
  then have l: "convert_loop [] [''>'', ''>''] = [''>'', ''>'']"
    by (simp only: append_Nil append_Nil2 convert_loop.simps if_True simp_thms)
  have s: "splitlines ''>\<newline>>'' = [''>'', ''>'']" by code_simp
  have n: "\<not> ends_with_newline ''>\<newline>>''" by code_simp
  have c: "convert_blockquote_sequences ''>\<newline>>'' = ''>\<newline>>''"
    unfolding convert_blockquote_sequences_def s l using n by simp
  let ?run = "[''>'', ''> SELECT 1;'', ''>'', ''> FROM t'', ''>'', ''>'']"
  let ?mid = "[''SELECT 1;'', [], ''FROM t'']"
  have g1: "?run \<noteq> []" by simp
  have g2: "list_all2 (\<lambda>l r. is_blockquote_sql_line l = Some r) ?run
              (replicate 1 [] @ ?mid @ replicate 2 [])"
    by code_simp
  have g3: "?mid \<noteq> [] \<longrightarrow> hd ?mid \<noteq> [] \<and> last ?mid \<noteq> []" by simp
  have g4: "[''x''] = [] \<or> is_blockquote_sql_line (hd [''x'']) = None" by code_simp
  have ne: "?mid \<noteq> []" by simp
  have "convert_loop [] (?run @ [''x'']) =
          (if ?mid = [] then convert_loop ([] @ ?run) [''x'']
           else convert_loop ([] @ [''```sql''] @ ?mid @ [''```'']) [''x''])"
    using g1 g2 g3 g4 by (rule blank_quoted_run_unchanged)
  then have "convert_loop [] (?run @ [''x'']) =
          convert_loop ([] @ [''```sql''] @ ?mid @ [''```'']) [''x'']"
    using ne by (simp only: if_False)
  moreover have x: "is_blockquote_sql_line ''x'' = None" by code_simp
  ultimately have t: "convert_loop [] [''>'', ''> SELECT 1;'', ''>'', ''> FROM t'', ''>'', ''>'', ''x''] =
       [''```sql'', ''SELECT 1;'', [], ''FROM t'', ''```'', ''x'']"
    by (simp only: append_Cons append_Nil append_Nil2 convert_loop.simps x option.case)
  from l c t show ?thesis by (simp only: simp_thms)
qed

lemma not_space_gt: "\<not> isspace (CHR ''>'')" by (simp add: isspace_def)

lemma quoted_line_classified:
  assumes "\<forall>ch\<in>set w. isspace ch" and "c \<noteq> []" and "\<not> isspace (hd c)" and "LF \<notin> set c"
    and "search_keywords SQL_KEYWORDS_fix None c \<or> search_punct PUNCT_fix c"
  shows "is_blockquote_sql_line (CHR ''>'' # w @ c) = Some c"
proof -
  from assms(2,3) have d: "dropWhile isspace c = c" by (cases c) auto
  have "dropWhile isspace (w @ c) = dropWhile isspace c"
    using assms(1) by (intro dropWhile_append2) simp
  with d have "dropWhile isspace (w @ c) = c" by simp
  moreover have "\<exists>x\<in>set w \<union> set c. \<not> isspace x" using assms(2,3) by (cases c) auto
  ultimately have "blockquote_inner (CHR ''>'' # w @ c) = Some c"
    using assms(2,4) by (simp add: blockquote_inner_def not_space_gt)
  then show ?thesis using assms(2,5) by (auto simp add: is_blockquote_sql_line_def)
qed

lemma trim_blank_id: "\<forall>c\<in>set cs. c \<noteq> [] \<Longrightarrow> trim_blank cs = cs"
proof -
  assume a: "\<forall>c\<in>set cs. c \<noteq> []"
  then have 1: "dropWhile (\<lambda>x. x = []) cs = cs" by (cases cs) auto
  from a have "\<forall>c\<in>set (rev cs). c \<noteq> []" by simp
  then have 2: "dropWhile (\<lambda>x. x = []) (rev cs) = rev cs" by (cases "rev cs") auto
  show ?thesis unfolding trim_blank_def 1 2 by simp
qed

text \<open>
  Claim C2. A run of quoted SQL lines, each a quote marker, white space and a content
  that passes the SQL heuristic of the fix script, followed by a line that is not
  classified or by the end of the input, is replaced by one fenced block: the opener
  \<^verbatim>\<open>```sql\<close>, the contents in their order, the closer \<^verbatim>\<open>```\<close>; the
  loop goes on with the first line after the run.
\<close>

theorem quoted_sql_run_fenced:
  assumes "cs \<noteq> []" and "length ws = length cs"
    and "\<forall>w\<in>set ws. \<forall>ch\<in>set w. isspace ch"
    and "\<forall>c\<in>set cs. c \<noteq> [] \<and> \<not> isspace (hd c) \<and> LF \<notin> set c
           \<and> (search_keywords SQL_KEYWORDS_fix None c \<or> search_punct PUNCT_fix c)"
    and "post = [] \<or> is_blockquote_sql_line (hd post) = None"
  shows "convert_loop out (map2 (\<lambda>w c. CHR ''>'' # w @ c) ws cs @ post) =
           convert_loop (out @ [''```sql''] @ cs @ [''```'']) post"
proof -
  let ?run = "map2 (\<lambda>w c. CHR ''>'' # w @ c) ws cs"
  have cl: "list_all2 (\<lambda>l r. is_blockquote_sql_line l = Some r) ?run cs"
    using assms(2,3,4)
  proof (induction ws cs rule: list_induct2)
    case Nil
    then show ?case by simp
  next
    case (Cons w ws c cs)
    then have "is_blockquote_sql_line (CHR ''>'' # w @ c) = Some c"
      by (intro quoted_line_classified) auto
    with Cons show ?case by simp
  qed
  have ne: "?run \<noteq> []" using assms(1,2) by (cases ws; cases cs) auto
  have nb: "\<exists>r\<in>set cs. r \<noteq> []" using assms(1,4) by (cases cs) auto
  have tr: "trim_blank cs = cs" using assms(4) by (intro trim_blank_id) simp
  from convert_loop_run [OF ne cl assms(5), of out] nb tr show ?thesis by simp
qed

theorem quoted_sql_run_fenced_witness:
  "convert_loop [] [''> SELECT a'', ''> FROM b'', ''> WHERE c=1;''] =
     [''```sql'', ''SELECT a'', ''FROM b'', ''WHERE c=1;'', ''```'']
   \<and> convert_blockquote_sequences ''> SELECT a\<newline>> FROM b\<newline>> WHERE c=1;'' =
     ''```sql\<newline>SELECT a\<newline>FROM b\<newline>WHERE c=1;\<newline>```''"
proof -
  let ?cs = "[''SELECT a'', ''FROM b'', ''WHERE c=1;'']"
  let ?ws = "['' '', '' '', '' '']"
  have h1: "?cs \<noteq> []" by simp
  have h2: "length ?ws = length ?cs" by simp
  have h3: "\<forall>w\<in>set ?ws. \<forall>ch\<in>set w. isspace ch" by code_simp
  have h4: "\<forall>c\<in>set ?cs. c \<noteq> [] \<and> \<not> isspace (hd c) \<and> LF \<notin> set c
           \<and> (search_keywords SQL_KEYWORDS_fix None c \<or> search_punct PUNCT_fix c)"
    by code_simp
  have h5: "([]::string list) = [] \<or> is_blockquote_sql_line (hd []) = None" by simp
  have "convert_loop [] (map2 (\<lambda>w c. CHR ''>'' # w @ c) ?ws ?cs @ []) =
           convert_loop ([] @ [''```sql''] @ ?cs @ [''```'']) []"
    using h1 h2 h3 h4 h5 by (rule quoted_sql_run_fenced)
  then have l: "convert_loop [] [''> SELECT a'', ''> FROM b'', ''> WHERE c=1;''] =
     [''```sql'', ''SELECT a'', ''FROM b'', ''WHERE c=1;'', ''```'']"
    by (simp only: zip_Cons_Cons zip_Nil list.map prod.case append_Cons append_Nil append_Nil2
        convert_loop.simps)
  have s: "splitlines ''> SELECT a\<newline>> FROM b\<newline>> WHERE c=1;'' =
      [''> SELECT a'', ''> FROM b'', ''> WHERE c=1;'']" by code_simp
  have n: "\<not> ends_with_newline ''> SELECT a\<newline>> FROM b\<newline>> WHERE c=1;''" by code_simp
  have "convert_blockquote_sequences ''> SELECT a\<newline>> FROM b\<newline>> WHERE c=1;'' =
     ''```sql\<newline>SELECT a\<newline>FROM b\<newline>WHERE c=1;\<newline>```''"
    unfolding convert_blockquote_sequences_def s l using n by simp
  with l show ?thesis ..
qed

section \<open>A centered div in a fenced block\<close>




























section \<open>Backups\<close>









section \<open>Line separators\<close>

lemma normalize_file_fix_result:
  "files fs path = Some content \<Longrightarrow>
   normalize_file_fix path fs =
     (if fix_text (universal_newlines content) \<noteq> universal_newlines content
      then Inr (True,
             fs\<lparr>files := (files fs)(path @ ''.fixbak'' \<mapsto> universal_newlines content,
                   path \<mapsto> fix_text (universal_newlines content)),
                writes := writes fs @ [(path @ ''.fixbak'', universal_newlines content),
                   (path, fix_text (universal_newlines content))]\<rparr>)
      else Inr (False, fs))"
  by (simp add: normalize_file_fix_def read_text_def write_text_def with_added_suffix_def
      fix_text_def Let_def)

text \<open>
  Claim C9. There is a text in which no line is classified by the blockquote
  converter and which holds no div in a fenced block, and which
  \<open>convert_blockquote_sequences\<close> still changes: the two lines \<open>a\<close> and \<open>b\<close> with a form
  feed between them come back joined by a line feed, so \<open>normalize_file\<close> writes the
  backup and then the file. A carriage return and line feed between the lines is
  replaced in the same way by \<open>convert_blockquote_sequences\<close>; in a file it is read as
  a line feed already, and that file is left alone.
\<close>

theorem separators_change_text:
  "list_all (\<lambda>l. is_blockquote_sql_line l = None) (splitlines [CHR ''a'', CHR 0x0C, CHR ''b''])
   \<and> \<not> contains_div_in_code [CHR ''a'', CHR 0x0C, CHR ''b'']
   \<and> convert_blockquote_sequences [CHR ''a'', CHR 0x0C, CHR ''b''] = ''a\<newline>b''
   \<and> convert_blockquote_sequences [CHR ''a'', CHR 0x0C, CHR ''b''] \<noteq> [CHR ''a'', CHR 0x0C, CHR ''b'']
   \<and> (case normalize_file_fix ''l.md''
         \<lparr>files = [''l.md'' \<mapsto> [CHR ''a'', CHR 0x0C, CHR ''b'']], writes = []\<rparr> of
        Inl e \<Rightarrow> False
      | Inr (b, fs') \<Rightarrow>
          b \<and> writes fs' = [(''l.md.fixbak'', [CHR ''a'', CHR 0x0C, CHR ''b'']), (''l.md'', ''a\<newline>b'')])
   \<and> list_all (\<lambda>l. is_blockquote_sql_line l = None) (splitlines [CHR ''a'', CR, LF, CHR ''b''])
   \<and> convert_blockquote_sequences [CHR ''a'', CR, LF, CHR ''b''] = ''a\<newline>b''
   \<and> (case normalize_file_fix ''l.md''
         \<lparr>files = [''l.md'' \<mapsto> [CHR ''a'', CR, LF, CHR ''b'']], writes = []\<rparr> of
        Inl e \<Rightarrow> False
      | Inr (b, fs') \<Rightarrow> \<not> b \<and> writes fs' = [])"
proof -
  let ?T = "[CHR ''a'', CHR 0x0C, CHR ''b'']"
  let ?U = "[CHR ''a'', CR, LF, CHR ''b'']"
  have 1: "list_all (\<lambda>l. is_blockquote_sql_line l = None) (splitlines ?T)" by code_simp
  have 2: "\<not> contains_div_in_code ?T" by code_simp
  have 3: "convert_blockquote_sequences ?T = ''a\<newline>b''" by code_simp
  have 4: "convert_blockquote_sequences ?T \<noteq> ?T" unfolding 3 by simp
  have r: "fix_text ?T = ''a\<newline>b''" by code_simp
  have u: "universal_newlines ?T = ?T" by code_simp
  have hT: "files \<lparr>files = [''l.md'' \<mapsto> ?T], writes = []\<rparr> ''l.md'' = Some ?T" by simp
  have hU: "files \<lparr>files = [''l.md'' \<mapsto> ?U], writes = []\<rparr> ''l.md'' = Some ?U" by simp
  have 5: "(case normalize_file_fix ''l.md'' \<lparr>files = [''l.md'' \<mapsto> ?T], writes = []\<rparr> of
        Inl e \<Rightarrow> False
      | Inr (b, fs') \<Rightarrow> b \<and> writes fs' = [(''l.md.fixbak'', ?T), (''l.md'', ''a\<newline>b'')])"
    unfolding normalize_file_fix_result [OF hT] u r by simp
  have 6: "list_all (\<lambda>l. is_blockquote_sql_line l = None) (splitlines ?U)" by code_simp
  have 7: "convert_blockquote_sequences ?U = ''a\<newline>b''" by code_simp
  have u': "universal_newlines ?U = ''a\<newline>b''" by code_simp
  have r': "fix_text ''a\<newline>b'' = ''a\<newline>b''" by code_simp
  have 8: "(case normalize_file_fix ''l.md'' \<lparr>files = [''l.md'' \<mapsto> ?U], writes = []\<rparr> of
        Inl e \<Rightarrow> False
      | Inr (b, fs') \<Rightarrow> \<not> b \<and> writes fs' = [])"
    unfolding normalize_file_fix_result [OF hU] u' r' by simp
  from 1 2 3 4 5 6 7 8 show ?thesis by (intro conjI)
qed

section \<open>Running a script on its own output\<close>


lemma not_CR_LF: "LF \<noteq> CR" by simp




































end
